theory Spec2Isabelle
  imports Complex_Main "HOL-Library.AList"
begin

section \<open>Characters and character classes\<close>

text \<open>
  A Python \<open>str\<close> is a sequence of code points. The model uses \<open>string\<close>, whose
  characters are the code points U+0000 to U+00FF; the classes below are the ones
  Python's \<open>re\<close> module and \<open>str.strip\<close> use on that range.
\<close>

definition is_space :: "char \<Rightarrow> bool" where
  \<comment> \<open>\<open>\s\<close> of \<open>re\<close> on \<open>str\<close>, and the characters \<open>str.strip()\<close> removes\<close>
  "is_space c =
     (let n = (of_char c :: nat)
      in (9 \<le> n \<and> n \<le> 13) \<or> (28 \<le> n \<and> n \<le> 32) \<or> n = 133 \<or> n = 160)"

definition is_word :: "char \<Rightarrow> bool" where
  \<comment> \<open>\<open>\w\<close> of \<open>re\<close> on \<open>str\<close>: alphanumeric or underscore\<close>
  "is_word c =
     (let n = (of_char c :: nat)
      in (48 \<le> n \<and> n \<le> 57) \<or> (65 \<le> n \<and> n \<le> 90) \<or> n = 95 \<or> (97 \<le> n \<and> n \<le> 122)
         \<or> n = 170 \<or> n = 178 \<or> n = 179 \<or> n = 181 \<or> n = 185 \<or> n = 186
         \<or> (188 \<le> n \<and> n \<le> 190) \<or> (192 \<le> n \<and> n \<le> 214)
         \<or> (216 \<le> n \<and> n \<le> 246) \<or> (248 \<le> n \<and> n \<le> 255))"

section \<open>2html2md.py: text substitutions\<close>

subsection \<open>ensure_space_before_links\<close>

text \<open>
  \<^verbatim>\<open>re.sub(r'(?<!\!)\b(\S)(\[)', r'\1 \2', markdown_content)\<close>

  The scan keeps the character before the current position (\<open>None\<close> at the start of
  the text). At a position holding \<open>c\<close> followed by \<open>d\<close> the pattern matches when the
  character before \<open>c\<close> is not \<open>!\<close> (the lookbehind), the position is a word boundary
  (\<open>\b\<close>), \<open>c\<close> is not whitespace (\<open>\S\<close>) and \<open>d\<close> is \<open>[\<close>. A match is replaced by
  \<open>c\<close>, a space and \<open>[\<close>, and the scan goes on after the \<open>[\<close>.
\<close>

definition word_boundary :: "char option \<Rightarrow> char \<Rightarrow> bool" where
  "word_boundary prev c = ((case prev of None \<Rightarrow> False | Some p \<Rightarrow> is_word p) \<noteq> is_word c)"

fun sub_space_before_links :: "char option \<Rightarrow> string \<Rightarrow> string" where
  "sub_space_before_links prev (c # d # rest) =
     (if prev \<noteq> Some CHR ''!'' \<and> word_boundary prev c \<and> \<not> is_space c \<and> d = CHR ''[''
      then c # CHR '' '' # d # sub_space_before_links (Some d) rest
      else c # sub_space_before_links (Some c) (d # rest))"
| "sub_space_before_links prev cs = cs"

definition ensure_space_before_links :: "string \<Rightarrow> string" where
  "ensure_space_before_links markdown_content = sub_space_before_links None markdown_content"

subsection \<open>increase_heading_levels\<close>

text \<open>
  \<^verbatim>\<open>re.sub(r'^(#{1,6})', replace_heading, markdown_content, flags=re.MULTILINE)\<close>
  where \<open>replace_heading\<close> returns \<open>'#' + match.group(1)\<close>.

  With \<open>re.MULTILINE\<close> the anchor \<open>^\<close> holds at the start of the text and right
  after every line feed; the flag \<open>bol\<close> of the scan says whether the current position
  is such a place. Group 1 is the longest run of one to six \<open>#\<close> there. After a match
  the scan goes on behind the run, which is not the start of a line.
\<close>

definition heading_run :: "string \<Rightarrow> string" where
  "heading_run s = takeWhile (\<lambda>x. x = CHR ''#'') (take 6 s)"

definition replace_heading :: "string \<Rightarrow> string" where
  "replace_heading heading = CHR ''#'' # heading"

function sub_heading :: "bool \<Rightarrow> string \<Rightarrow> string" where
  "sub_heading bol [] = []"
| "sub_heading bol (c # cs) =
     (if bol \<and> c = CHR ''#''
      then replace_heading (heading_run (c # cs))
           @ sub_heading False (drop (length (heading_run (c # cs))) (c # cs))
      else c # sub_heading (c = CHR 0x0A) cs)"
  by pat_completeness auto
termination
  by (relation "measure (\<lambda>(bol, s). length s)") (auto simp: heading_run_def)

definition increase_heading_levels :: "string \<Rightarrow> string" where
  "increase_heading_levels markdown_content = sub_heading True markdown_content"

text \<open>
  The lines of a text, as \<open>str.split("\n")\<close> gives them, and the text of a list of
  lines, as \<open>"\n".join\<close> gives it.
\<close>

fun split_nl :: "string \<Rightarrow> string list" where
  "split_nl [] = [[]]"
| "split_nl (c # cs) =
     (if c = CHR 0x0A then [] # split_nl cs
      else (case split_nl cs of [] \<Rightarrow> [[c]] | l # ls \<Rightarrow> (c # l) # ls))"

fun join_nl :: "string list \<Rightarrow> string" where
  "join_nl [] = []"
| "join_nl [l] = l"
| "join_nl (l # m # ls) = l @ CHR 0x0A # join_nl (m # ls)"

text \<open>The heading promotion in the words of the specification: line by line.\<close>

definition starts_with_hash :: "string \<Rightarrow> bool" where
  "starts_with_hash l = (case l of [] \<Rightarrow> False | c # _ \<Rightarrow> c = CHR ''#'')"

definition promote_line :: "string \<Rightarrow> string" where
  "promote_line l = (if starts_with_hash l then CHR ''#'' # l else l)"

definition promote_lines :: "string \<Rightarrow> string" where
  "promote_lines s = join_nl (map promote_line (split_nl s))"

definition has_heading_line :: "string \<Rightarrow> bool" where
  "has_heading_line s = list_ex starts_with_hash (split_nl s)"

subsection \<open>clean_google_url\<close>

text \<open>
  \<^verbatim>\<open>match = re.search(r'q=(https?://[^&]+)', url)
return match.group(1) if match else url\<close>

  \<open>match_q_url\<close> matches the pattern at the start of a text and returns group 1;
  the optional \<open>s\<close> is tried first and given up when the rest does not match.
  \<open>search_q_url\<close> tries every start position from the left.
\<close>

fun match_prefix :: "string \<Rightarrow> string \<Rightarrow> string option" where
  "match_prefix [] s = Some s"
| "match_prefix (p # ps) [] = None"
| "match_prefix (p # ps) (c # cs) = (if p = c then match_prefix ps cs else None)"

definition match_url_rest :: "string \<Rightarrow> string option" where
  \<comment> \<open>\<open>://[^&]+\<close>, the text matched\<close>
  "match_url_rest s =
     (case match_prefix ''://'' s of
        None \<Rightarrow> None
      | Some r \<Rightarrow>
          (let rest = takeWhile (\<lambda>c. c \<noteq> CHR ''&'') r
           in if rest = [] then None else Some (''://'' @ rest)))"

definition match_q_url :: "string \<Rightarrow> string option" where
  "match_q_url s =
     (case match_prefix ''q=http'' s of
        None \<Rightarrow> None
      | Some r1 \<Rightarrow>
          (case (case match_prefix ''s'' r1 of
                   None \<Rightarrow> None
                 | Some r2 \<Rightarrow> map_option (\<lambda>u. ''https'' @ u) (match_url_rest r2)) of
             Some g \<Rightarrow> Some g
           | None \<Rightarrow> map_option (\<lambda>u. ''http'' @ u) (match_url_rest r1)))"

fun search_q_url :: "string \<Rightarrow> string option" where
  "search_q_url [] = match_q_url []"
| "search_q_url (c # cs) =
     (case match_q_url (c # cs) of Some g \<Rightarrow> Some g | None \<Rightarrow> search_q_url cs)"

definition clean_google_url :: "string \<Rightarrow> string" where
  "clean_google_url url = (case search_q_url url of Some g \<Rightarrow> g | None \<Rightarrow> url)"

section \<open>2html2md.py: the document tree\<close>

text \<open>
  The parsed document: a text node holds a string, an element holds its tag name, its
  attributes (a dictionary in insertion order, here an association list read with
  \<open>map_of\<close> and written with \<open>AList.update\<close>) and its children. The soup itself is
  the list of the top-level nodes; \<open>find_all\<close> visits every element below it.
\<close>

datatype node =
    Text string
  | Element (tag: string) (attrs: "(string \<times> string) list") (children: "node list")

subsection \<open>Image paths\<close>

text \<open>
  \<open>os.path\<close> is \<open>posixpath\<close>:
  \<^verbatim>\<open>def basename(p):
    i = p.rfind('/') + 1
    return p[i:]\<close>
  \<^verbatim>\<open>def join(a, *p):
    path = a
    for b in p:
        if b.startswith('/'): path = b
        elif not path or path.endswith('/'): path += b
        else: path += '/' + b
    return path\<close>
\<close>

fun rfind :: "char \<Rightarrow> string \<Rightarrow> int" where
  "rfind x [] = -1"
| "rfind x (c # cs) =
     (let r = rfind x cs in if 0 \<le> r then r + 1 else if c = x then 0 else -1)"

definition basename :: "string \<Rightarrow> string" where
  "basename p = (let i = rfind CHR ''/'' p + 1 in drop (nat i) p)"

definition path_join :: "string \<Rightarrow> string \<Rightarrow> string" where
  "path_join a b =
     (if take 1 b = ''/'' then b
      else if a = [] \<or> (a \<noteq> [] \<and> last a = CHR ''/'') then a @ b
      else a @ ''/'' @ b)"

text \<open>
  \<^verbatim>\<open>for img in soup.find_all('img'):
    src = img.get('src')
    if src:
        img['src'] = os.path.join('images', os.path.basename(src))\<close>
\<close>

definition rewrite_img_src :: "(string \<times> string) list \<Rightarrow> (string \<times> string) list" where
  "rewrite_img_src as =
     (case map_of as ''src'' of
        None \<Rightarrow> as
      | Some src \<Rightarrow>
          if src \<noteq> [] then AList.update ''src'' (path_join ''images'' (basename src)) as
          else as)"

fun process_images :: "node \<Rightarrow> node" where
  "process_images (Text s) = Text s"
| "process_images (Element t as cs) =
     Element t (if t = ''img'' then rewrite_img_src as else as) (map process_images cs)"

subsection \<open>Link targets\<close>

text \<open>
  \<^verbatim>\<open>for a in soup.find_all('a', href=True):
    a['href'] = clean_google_url(a['href'])\<close>
\<close>

definition rewrite_href :: "(string \<times> string) list \<Rightarrow> (string \<times> string) list" where
  "rewrite_href as =
     (case map_of as ''href'' of
        None \<Rightarrow> as
      | Some href \<Rightarrow> AList.update ''href'' (clean_google_url href) as)"

fun process_links :: "node \<Rightarrow> node" where
  "process_links (Text s) = Text s"
| "process_links (Element t as cs) =
     Element t (if t = ''a'' then rewrite_href as else as) (map process_links cs)"

subsection \<open>remove_line_breaks_within_paragraphs\<close>

text \<open>
  \<^verbatim>\<open>for p in soup.find_all('p'):
    for text_node in p.find_all(string=True):
        new_text = text_node.replace('\n', ' ').replace('\r', ' ')
        text_node.replace_with(new_text)\<close>

  \<open>replace_strings\<close> is the inner loop: every text node below one element.
  The outer loop takes the \<open>p\<close> elements in document order, an outer one before the
  ones nested in it.
\<close>

definition replace_char :: "char \<Rightarrow> char \<Rightarrow> string \<Rightarrow> string" where
  "replace_char old new s = map (\<lambda>c. if c = old then new else c) s"

definition new_text :: "string \<Rightarrow> string" where
  "new_text text_node = replace_char (CHR 0x0D) CHR '' '' (replace_char (CHR 0x0A) CHR '' '' text_node)"

fun replace_strings :: "(string \<Rightarrow> string) \<Rightarrow> node \<Rightarrow> node" where
  "replace_strings f (Text s) = Text (f s)"
| "replace_strings f (Element t as cs) = Element t as (map (replace_strings f) cs)"

function paragraphs_below :: "node \<Rightarrow> node" where
  "paragraphs_below (Text s) = Text s"
| "paragraphs_below (Element t as cs) =
     Element t as
       (map paragraphs_below (if t = ''p'' then map (replace_strings new_text) cs else cs))"
  by pat_completeness auto
termination
proof -
  have same_size: "size (replace_strings f n) = size n" for f n
    by (induction n) (simp_all add: size_list_conv_sum_list comp_def cong: map_cong)
  have below: "size x < Suc (size_list size cs)" if "x \<in> set cs" for x :: node and cs
    using that by (induction cs) auto
  show ?thesis
    by (relation "measure size") (auto simp: same_size below split: if_splits)
qed

definition remove_line_breaks_within_paragraphs :: "node list \<Rightarrow> node list" where
  "remove_line_breaks_within_paragraphs soup = map paragraphs_below soup"

text \<open>
  The same step in the words of the specification: a text node is rewritten when one of
  its ancestors is a paragraph (\<open>inp\<close>), each line feed and each carriage return
  becoming one space.
\<close>

definition break_to_space :: "char \<Rightarrow> char" where
  "break_to_space c = (if c = CHR 0x0A \<or> c = CHR 0x0D then CHR '' '' else c)"

fun collapse_in_paragraphs :: "bool \<Rightarrow> node \<Rightarrow> node" where
  "collapse_in_paragraphs inp (Text s) = Text (if inp then map break_to_space s else s)"
| "collapse_in_paragraphs inp (Element t as cs) =
     Element t as (map (collapse_in_paragraphs (inp \<or> t = ''p'')) cs)"

subsection \<open>convert_html_to_md\<close>

text \<open>
  The parser (\<open>BeautifulSoup(html_content, 'html.parser')\<close>) and the serializer
  (\<open>md(str(soup), heading_style="ATX")\<close>) are library calls, and the function has no
  \<open>try\<close> around them: an exception raised by either leaves the function at once.
  They are parameters here, each returning the exception it raises or its result.
  The result of the function is the text handed to the output file.
\<close>

datatype py_exception = ParserRejectedMarkup | RecursionError | OtherException string



text \<open>
  \<open>find_all(name)\<close>: the elements with that tag name at or below a node, in document
  order.
\<close>

fun find_all :: "string \<Rightarrow> node \<Rightarrow> node list" where
  "find_all name (Text s) = []"
| "find_all name (Element t as cs) =
     (if t = name then [Element t as cs] else []) @ concat (map (find_all name) cs)"

section \<open>tomdtopdf.py: the checks before rendering\<close>

text \<open>
  The metadata is the dictionary the front matter parser returns: its values are YAML
  values, and \<open>not v\<close> is Python's truth test on them.
\<close>

datatype yaml =
    YNull
  | YBool bool
  | YInt int
  | YFloat rat
  | YStr string
  | YDate nat nat nat
  | YSeq "yaml list"
  | YMap "(string \<times> yaml) list"

fun truthy :: "yaml \<Rightarrow> bool" where
  "truthy YNull = False"
| "truthy (YBool b) = b"
| "truthy (YInt i) = (i \<noteq> 0)"
| "truthy (YFloat x) = (x \<noteq> 0)"
| "truthy (YStr s) = (s \<noteq> [])"
| "truthy (YDate y m d) = True"
| "truthy (YSeq xs) = (xs \<noteq> [])"
| "truthy (YMap kvs) = (kvs \<noteq> [])"

text \<open>\<open>print(message)\<close> followed by \<open>sys.exit(status)\<close>.\<close>

datatype failure = SystemExit (status: int) (message: string)

text \<open>
  \<^verbatim>\<open>required_fields = ["title", "version", "date_modified", "pdf_filename"]
for field in required_fields:
    if field not in metadata or not metadata[field]:
        print(f"Metadata field '{field}' is missing or empty.")
        sys.exit(1)\<close>
\<close>

definition required_fields :: "string list" where
  "required_fields = [''title'', ''version'', ''date_modified'', ''pdf_filename'']"

definition field_message :: "string \<Rightarrow> string" where
  "field_message field =
     ''Metadata field '' @ [CHR 0x27] @ field @ [CHR 0x27] @ '' is missing or empty.''"

fun check_fields :: "(string \<rightharpoonup> yaml) \<Rightarrow> string list \<Rightarrow> failure + unit" where
  "check_fields metadata [] = Inr ()"
| "check_fields metadata (field # fields) =
     (case metadata field of
        None \<Rightarrow> Inl (SystemExit 1 (field_message field))
      | Some v \<Rightarrow>
          if truthy v then check_fields metadata fields
          else Inl (SystemExit 1 (field_message field)))"

definition field_check :: "(string \<rightharpoonup> yaml) \<Rightarrow> failure + unit" where
  "field_check metadata = check_fields metadata required_fields"

text \<open>
  \<^verbatim>\<open>if not content:
    print("Markdown content not present.")
    sys.exit(1)
if not any(line.strip().startswith("#") for line in content.split("\n")):
    print("Suspiciously, the Markdown content does not contain a title; exiting.")
    sys.exit(1)\<close>
\<close>

definition strip :: "string \<Rightarrow> string" where
  "strip s = rev (dropWhile is_space (rev (dropWhile is_space s)))"

definition startswith :: "string \<Rightarrow> string \<Rightarrow> bool" where
  "startswith s prefix = (take (length prefix) s = prefix)"

definition content_check :: "string \<Rightarrow> failure + unit" where
  "content_check content =
     (if content = [] then Inl (SystemExit 1 ''Markdown content not present.'')
      else if list_ex (\<lambda>line. startswith (strip line) ''#'') (split_nl content) then Inr ()
      else Inl (SystemExit 1
             ''Suspiciously, the Markdown content does not contain a title; exiting.''))"

text \<open>
  \<open>main\<close> after the command line is read. Loading the document, rendering the HTML and
  writing the PDF are library calls behind \<open>try\<close> blocks that exit with status 1; they
  are parameters that either fail or return.
\<close>

definition main ::
  "(failure + (string \<rightharpoonup> yaml) \<times> string) \<Rightarrow>
   ((string \<rightharpoonup> yaml) \<Rightarrow> string \<Rightarrow> failure + 'h) \<Rightarrow>
   ((string \<rightharpoonup> yaml) \<Rightarrow> 'h \<Rightarrow> failure + unit) \<Rightarrow> failure + unit" where
  "main load_doc md2html html2pdf =
     (case load_doc of
        Inl e \<Rightarrow> Inl e
      | Inr (metadata, content) \<Rightarrow>
          (case field_check metadata of
             Inl e \<Rightarrow> Inl e
           | Inr _ \<Rightarrow>
               (case content_check content of
                  Inl e \<Rightarrow> Inl e
                | Inr _ \<Rightarrow>
                    (case md2html metadata content of
                       Inl e \<Rightarrow> Inl e
                     | Inr html \<Rightarrow> html2pdf metadata html))))"

text \<open>A value the specification calls empty.\<close>

definition empty_value :: "yaml \<Rightarrow> bool" where
  "empty_value v = (v = YNull \<or> v = YStr [] \<or> v = YSeq [] \<or> v = YMap [])"

text \<open>
  The pattern in the words of the specification: \<open>url\<close> is \<open>pre\<close>, then \<open>q=\<close>, then
  the inner URL \<open>g\<close> (\<open>http\<close> or \<open>https\<close>, \<open>://\<close>, and a non-empty rest without
  \<open>&\<close>), then a tail that is empty or begins with \<open>&\<close>.
\<close>

definition q_url_at :: "string \<Rightarrow> string \<Rightarrow> string \<Rightarrow> bool" where
  "q_url_at url pre g =
     (\<exists>scheme rest tail.
        url = pre @ ''q='' @ g @ tail \<and> g = scheme @ ''://'' @ rest
        \<and> (scheme = ''http'' \<or> scheme = ''https'')
        \<and> rest \<noteq> [] \<and> CHR ''&'' \<notin> set rest
        \<and> (tail = [] \<or> take 1 tail = ''&''))"

section \<open>The space before a link\<close>

text \<open>
  C1. The specification has \<open>Word[link](url)\<close> become \<open>Word [link](url)\<close>. The
  substitution leaves that text as it is: the pattern asks for a word boundary in front
  of the character before the bracket, and there is none between \<open>r\<close> and \<open>d\<close>.
  Its lookbehind tests the character two places before the bracket, so the bracket
  of an image that follows a word is separated from its \<open>!\<close>.
\<close>

theorem ensure_space_before_links_word_unchanged:
  "ensure_space_before_links ''Word[link](url)'' = ''Word[link](url)''
   \<and> ensure_space_before_links ''see![alt](img.png)'' = ''see! [alt](img.png)''
   \<and> ensure_space_before_links ''a[link](url)'' = ''a [link](url)''
   \<and> ensure_space_before_links ''![alt](img.png)'' = ''![alt](img.png)''
   \<and> ensure_space_before_links ''Word [link](url)'' = ''Word [link](url)''"
  by (simp add: ensure_space_before_links_def word_boundary_def is_word_def is_space_def)


section \<open>Heading promotion\<close>

subsection \<open>The scan, one character at a time\<close>

lemma heading_run_prefix: "heading_run s @ drop (length (heading_run s)) s = s"
proof -
  have "heading_run s = take (length (heading_run s)) (take 6 s)"
    unfolding heading_run_def by (rule takeWhile_eq_take)
  moreover have "length (heading_run s) \<le> 6"
    unfolding heading_run_def by (rule order_trans[OF length_takeWhile_le]) simp
  ultimately have "heading_run s = take (length (heading_run s)) s"
    by (simp add: min_def)
  then show ?thesis
    by (metis append_take_drop_id)
qed

lemma heading_run_hashes: "set (heading_run s) \<subseteq> {CHR ''#''}"
  unfolding heading_run_def by (auto dest: set_takeWhileD)

lemma sub_heading_copy:
  "CHR 0x0A \<notin> set hs \<Longrightarrow> sub_heading False (hs @ rest) = hs @ sub_heading False rest"
  by (induction hs) auto

lemma sub_heading_Cons:
  "sub_heading bol (c # cs) =
     (if bol \<and> c = CHR ''#'' then CHR ''#'' # c # sub_heading False cs
      else c # sub_heading (c = CHR 0x0A) cs)"
proof (cases "bol \<and> c = CHR ''#''")
  case True
  let ?h = "heading_run (c # cs)"
  have nl: "CHR 0x0A \<notin> set ?h"
    using heading_run_hashes[of "c # cs"] by auto
  have "sub_heading bol (c # cs) = CHR ''#'' # ?h @ sub_heading False (drop (length ?h) (c # cs))"
    using True by (simp add: replace_heading_def)
  also have "?h @ sub_heading False (drop (length ?h) (c # cs))
      = sub_heading False (?h @ drop (length ?h) (c # cs))"
    using nl by (simp add: sub_heading_copy)
  also have "?h @ drop (length ?h) (c # cs) = c # cs"
    by (rule heading_run_prefix)
  finally show ?thesis using True by simp
next
  case False
  then show ?thesis by auto
qed

subsection \<open>Lines\<close>

lemma split_nl_not_Nil: "split_nl s \<noteq> []"
  by (induction s) (auto split: list.splits)

lemma join_nl_Cons_Cons: "join_nl ((x # l) # ls) = x # join_nl (l # ls)"
  by (cases ls) auto

lemma join_split_nl: "join_nl (split_nl s) = s"
proof (induction s)
  case Nil
  show ?case by simp
next
  case (Cons c cs)
  then show ?case
    by (cases "split_nl cs"; cases "tl (split_nl cs)") (auto split: if_splits)
qed

lemma split_nl_no_nl: "CHR 0x0A \<notin> set l \<Longrightarrow> split_nl l = [l]"
  by (induction l) auto

lemma split_nl_append:
  "CHR 0x0A \<notin> set l \<Longrightarrow> split_nl (l @ CHR 0x0A # rest) = l # split_nl rest"
  by (induction l) auto

lemma split_nl_join_nl:
  "ls \<noteq> [] \<Longrightarrow> (\<forall>l\<in>set ls. CHR 0x0A \<notin> set l) \<Longrightarrow> split_nl (join_nl ls) = ls"
  by (induction ls rule: join_nl.induct) (simp_all add: split_nl_no_nl split_nl_append)

lemma split_nl_lines: "l \<in> set (split_nl s) \<Longrightarrow> CHR 0x0A \<notin> set l"
proof (induction s arbitrary: l)
  case Nil
  then show ?case by simp
next
  case (Cons c cs)
  then show ?case
    by (cases "split_nl cs") (auto split: if_splits)
qed

subsection \<open>The scan against the line-by-line reading\<close>

lemma sub_heading_lines:
  "sub_heading bol s =
     join_nl (case split_nl s of [] \<Rightarrow> []
              | l # ls \<Rightarrow> (if bol then promote_line l else l) # map promote_line ls)"
proof (induction s arbitrary: bol)
  case Nil
  show ?case by (simp add: promote_line_def starts_with_hash_def)
next
  case (Cons c cs)
  obtain l ls where sp: "split_nl cs = l # ls"
    using split_nl_not_Nil[of cs] by (cases "split_nl cs") auto
  show ?case
  proof (cases "c = CHR 0x0A")
    case True
    then show ?thesis
      using Cons.IH[of True] sp
      by (simp add: sub_heading_Cons promote_line_def starts_with_hash_def del: sub_heading.simps(2))
  next
    case False
    then show ?thesis
      using Cons.IH[of False] sp
      by (simp add: sub_heading_Cons promote_line_def starts_with_hash_def join_nl_Cons_Cons
            del: sub_heading.simps(2))
  qed
qed

lemma increase_heading_levels_lines: "increase_heading_levels s = promote_lines s"
  using split_nl_not_Nil[of s]
  by (cases "split_nl s")
    (simp_all add: increase_heading_levels_def promote_lines_def sub_heading_lines)

lemma split_nl_promote_lines:
  "split_nl (promote_lines s) = map promote_line (split_nl s)"
  unfolding promote_lines_def
  by (rule split_nl_join_nl) (auto simp: split_nl_not_Nil promote_line_def dest: split_nl_lines)

lemma promote_twice_differs:
  assumes "has_heading_line s"
  shows "promote_lines (promote_lines s) \<noteq> promote_lines s"
proof
  assume eq: "promote_lines (promote_lines s) = promote_lines s"
  from assms obtain l where l: "l \<in> set (split_nl s)" "starts_with_hash l"
    by (auto simp: has_heading_line_def list_ex_iff)
  have "split_nl (promote_lines (promote_lines s)) = split_nl (promote_lines s)"
    using eq by simp
  then have "map promote_line (map promote_line (split_nl s)) = map promote_line (split_nl s)"
    by (simp only: split_nl_promote_lines)
  then have "promote_line (promote_line l) = promote_line l"
    using l(1) by (simp add: comp_def)
  then show False
    using l(2) by (simp add: promote_line_def starts_with_hash_def)
qed


text \<open>
  C5. Heading promotion puts exactly one \<open>#\<close> in front of every line that begins with
  \<open>#\<close> and changes nothing else: the text is cut at its line feeds, each line is
  promoted on its own, and the lines are joined again. Only a \<open>#\<close> at the start of a
  line counts, and a line of six \<open>#\<close> becomes a line of seven.
\<close>

theorem increase_heading_levels_per_line:
  "increase_heading_levels s = join_nl (map promote_line (split_nl s))
   \<and> join_nl (split_nl s) = s
   \<and> promote_line l = (if take 1 l = ''#'' then ''#'' @ l else l)
   \<and> increase_heading_levels ''# Title\<newline>## Sub'' = ''## Title\<newline>### Sub''
   \<and> increase_heading_levels ''###### H6'' = ''####### H6''
   \<and> increase_heading_levels ''a # b\<newline> # c'' = ''a # b\<newline> # c''"
proof -
  have "increase_heading_levels s = join_nl (map promote_line (split_nl s))"
    by (simp add: increase_heading_levels_lines promote_lines_def)
  moreover have "promote_line l = (if take 1 l = ''#'' then ''#'' @ l else l)"
    by (cases l) (simp_all add: promote_line_def starts_with_hash_def)
  moreover have "increase_heading_levels ''# Title\<newline>## Sub'' = ''## Title\<newline>### Sub''"
    by (simp add: increase_heading_levels_def sub_heading_Cons del: sub_heading.simps(2))
  moreover have "increase_heading_levels ''###### H6'' = ''####### H6''"
    by (simp add: increase_heading_levels_def sub_heading_Cons del: sub_heading.simps(2))
  moreover have "increase_heading_levels ''a # b\<newline> # c'' = ''a # b\<newline> # c''"
    by (simp add: increase_heading_levels_def sub_heading_Cons del: sub_heading.simps(2))
  ultimately show ?thesis
    by (simp only: join_split_nl simp_thms)
qed

text \<open>
  C8. Heading promotion is not idempotent: on every text with a line that begins with
  \<open>#\<close> a second application differs from the first, since it puts a further \<open>#\<close>
  in front of that line.
\<close>

theorem increase_heading_levels_not_idempotent:
  "has_heading_line s \<Longrightarrow>
     increase_heading_levels (increase_heading_levels s) \<noteq> increase_heading_levels s"
  by (simp only: increase_heading_levels_lines promote_twice_differs not_False_eq_True)

theorem increase_heading_levels_not_idempotent_witness:
  "has_heading_line ''# Title''
   \<and> increase_heading_levels (increase_heading_levels ''# Title'') \<noteq> increase_heading_levels ''# Title''
   \<and> increase_heading_levels ''# Title'' = ''## Title''
   \<and> increase_heading_levels (increase_heading_levels ''# Title'') = ''### Title''"
proof -
  have h: "has_heading_line ''# Title''"
    by (simp add: has_heading_line_def starts_with_hash_def)
  have "increase_heading_levels ''# Title'' = ''## Title''"
    by (simp add: increase_heading_levels_def sub_heading_Cons del: sub_heading.simps(2))
  moreover have "increase_heading_levels ''## Title'' = ''### Title''"
    by (simp add: increase_heading_levels_def sub_heading_Cons del: sub_heading.simps(2))
  ultimately show ?thesis
    using h increase_heading_levels_not_idempotent[OF h] by simp
qed

section \<open>Link targets\<close>

lemma match_prefix_iff: "match_prefix p s = Some r \<longleftrightarrow> s = p @ r"
  by (induction p s rule: match_prefix.induct) auto

lemma match_prefix_None_iff: "match_prefix p s = None \<longleftrightarrow> (\<forall>r. s \<noteq> p @ r)"
  using match_prefix_iff[of p s] by (cases "match_prefix p s") auto

lemma takeWhile_run:
  "takeWhile P r = rest \<longleftrightarrow>
     (\<exists>tail. r = rest @ tail \<and> (\<forall>x\<in>set rest. P x) \<and> (tail = [] \<or> \<not> P (hd tail)))"
proof
  assume "takeWhile P r = rest"
  then have "r = rest @ dropWhile P r" "\<forall>x\<in>set rest. P x"
    by (auto dest: set_takeWhileD)
  moreover have "dropWhile P r = [] \<or> \<not> P (hd (dropWhile P r))"
    using hd_dropWhile[of P r] by blast
  ultimately show "\<exists>tail. r = rest @ tail \<and> (\<forall>x\<in>set rest. P x) \<and> (tail = [] \<or> \<not> P (hd tail))"
    by blast
next
  assume "\<exists>tail. r = rest @ tail \<and> (\<forall>x\<in>set rest. P x) \<and> (tail = [] \<or> \<not> P (hd tail))"
  then obtain tail where "r = rest @ tail" "\<forall>x\<in>set rest. P x" "tail = [] \<or> \<not> P (hd tail)"
    by blast
  then show "takeWhile P r = rest"
    by (cases tail) auto
qed

lemma amp_tail: "(tail = [] \<or> \<not> hd tail \<noteq> CHR ''&'') \<longleftrightarrow> (tail = [] \<or> take 1 tail = ''&'')"
  by (cases tail) auto

lemma match_url_rest_iff:
  "match_url_rest s = Some u \<longleftrightarrow>
     (\<exists>rest tail. s = u @ tail \<and> u = ''://'' @ rest \<and> rest \<noteq> [] \<and> CHR ''&'' \<notin> set rest
        \<and> (tail = [] \<or> take 1 tail = ''&''))"
proof -
  have "match_url_rest s = Some u \<longleftrightarrow>
      (\<exists>r. s = ''://'' @ r \<and> takeWhile (\<lambda>c. c \<noteq> CHR ''&'') r \<noteq> []
          \<and> u = ''://'' @ takeWhile (\<lambda>c. c \<noteq> CHR ''&'') r)"
  proof (cases "match_prefix ''://'' s")
    case None
    then have "\<forall>r. s \<noteq> ''://'' @ r"
      using match_prefix_None_iff[of "''://''" s] by blast
    with None show ?thesis
      by (auto simp: match_url_rest_def)
  next
    case (Some r)
    then have "s = ''://'' @ r"
      using match_prefix_iff[of "''://''" s r] by blast
    with Some show ?thesis
      by (auto simp: match_url_rest_def Let_def)
  qed
  also have "\<dots> \<longleftrightarrow> (\<exists>r rest. s = ''://'' @ r \<and> takeWhile (\<lambda>c. c \<noteq> CHR ''&'') r = rest \<and> rest \<noteq> []
          \<and> u = ''://'' @ rest)"
    by blast
  also have "\<dots> \<longleftrightarrow> (\<exists>rest tail. s = u @ tail \<and> u = ''://'' @ rest \<and> rest \<noteq> [] \<and> CHR ''&'' \<notin> set rest
        \<and> (tail = [] \<or> take 1 tail = ''&''))"
    unfolding takeWhile_run amp_tail by auto
  finally show ?thesis .
qed

lemma match_q_url_iff: "match_q_url s = Some g \<longleftrightarrow> q_url_at s [] g"
proof
  assume m: "match_q_url s = Some g"
  then obtain r1 where r1: "s = ''q=http'' @ r1"
    by (auto simp: match_q_url_def match_prefix_iff split: option.splits)
  from m r1 consider
      (https) r2 u where "r1 = ''s'' @ r2" "match_url_rest r2 = Some u" "g = ''https'' @ u"
    | (http) u where "match_url_rest r1 = Some u" "g = ''http'' @ u"
    by (auto simp: match_q_url_def match_prefix_iff split: option.splits)
  then show "q_url_at s [] g"
  proof cases
    case https
    from https(2) obtain rest tail where
      "r2 = u @ tail" "u = ''://'' @ rest" "rest \<noteq> []" "CHR ''&'' \<notin> set rest"
      "tail = [] \<or> take 1 tail = ''&''"
      unfolding match_url_rest_iff by blast
    then show ?thesis
      unfolding q_url_at_def using r1 https(1,3)
      by (intro exI[of _ "''https''"] exI[of _ rest] exI[of _ tail]) simp
  next
    case http
    from http(1) obtain rest tail where
      "r1 = u @ tail" "u = ''://'' @ rest" "rest \<noteq> []" "CHR ''&'' \<notin> set rest"
      "tail = [] \<or> take 1 tail = ''&''"
      unfolding match_url_rest_iff by blast
    then show ?thesis
      unfolding q_url_at_def using r1 http(2)
      by (intro exI[of _ "''http''"] exI[of _ rest] exI[of _ tail]) simp
  qed
next
  assume "q_url_at s [] g"
  then obtain scheme rest tail where q:
    "s = ''q='' @ g @ tail" "g = scheme @ ''://'' @ rest" "scheme = ''http'' \<or> scheme = ''https''"
    "rest \<noteq> []" "CHR ''&'' \<notin> set rest" "tail = [] \<or> take 1 tail = ''&''"
    unfolding q_url_at_def append_Nil by blast
  have u: "match_url_rest ((''://'' @ rest) @ tail) = Some (''://'' @ rest)"
    unfolding match_url_rest_iff using q(4,5,6) by blast
  from q(3) show "match_q_url s = Some g"
  proof
    assume "scheme = ''http''"
    then show ?thesis
      using u q(1,2) by (simp add: match_q_url_def)
  next
    assume "scheme = ''https''"
    then show ?thesis
      using u q(1,2) by (simp add: match_q_url_def)
  qed
qed

lemma q_url_at_drop: "q_url_at url pre g \<longleftrightarrow> (\<exists>t. url = pre @ t \<and> match_q_url t = Some g)"
  unfolding match_q_url_iff q_url_at_def by auto

lemma search_q_url_None: "search_q_url url = None \<Longrightarrow> url = pre @ t \<Longrightarrow> match_q_url t = None"
proof (induction url arbitrary: pre)
  case Nil
  then show ?case by simp
next
  case (Cons c cs)
  then show ?case
    by (cases pre) (auto split: option.splits)
qed

lemma search_q_url_Some:
  "search_q_url url = Some g \<Longrightarrow>
     \<exists>pre t. url = pre @ t \<and> match_q_url t = Some g
       \<and> (\<forall>pre' t'. url = pre' @ t' \<and> length pre' < length pre \<longrightarrow> match_q_url t' = None)"
proof (induction url)
  case Nil
  then show ?case by simp
next
  case (Cons c cs)
  show ?case
  proof (cases "match_q_url (c # cs)")
    case (Some g')
    with Cons.prems have "match_q_url (c # cs) = Some g" by simp
    then show ?thesis
      by (intro exI[of _ "[]"] exI[of _ "c # cs"]) simp
  next
    case None
    with Cons.prems have "search_q_url cs = Some g" by simp
    from Cons.IH[OF this] obtain pre t where pt:
      "cs = pre @ t" "match_q_url t = Some g"
      "\<forall>pre' t'. cs = pre' @ t' \<and> length pre' < length pre \<longrightarrow> match_q_url t' = None"
      by blast
    have "match_q_url t' = None" if "c # cs = pre' @ t'" "length pre' < length (c # pre)" for pre' t'
    proof (cases pre')
      case Nil
      with that None show ?thesis by simp
    next
      case (Cons a p)
      with that pt(3) show ?thesis by auto
    qed
    then show ?thesis
      using pt(1,2) by (intro exI[of _ "c # pre"] exI[of _ t]) auto
  qed
qed

lemma clean_google_url_unchanged:
  "(\<forall>pre g. \<not> q_url_at url pre g) \<Longrightarrow> clean_google_url url = url"
proof -
  assume no: "\<forall>pre g. \<not> q_url_at url pre g"
  have "search_q_url url = None"
  proof (cases "search_q_url url")
    case (Some g)
    from search_q_url_Some[OF this] no show ?thesis
      unfolding q_url_at_drop by blast
  qed simp
  then show ?thesis by (simp add: clean_google_url_def)
qed

lemma clean_google_url_first:
  assumes "q_url_at url pre g"
    and "\<forall>pre' g'. q_url_at url pre' g' \<longrightarrow> length pre \<le> length pre'"
  shows "clean_google_url url = g"
proof -
  from assms(1) obtain t where t: "url = pre @ t" "match_q_url t = Some g"
    unfolding q_url_at_drop by blast
  have "search_q_url url \<noteq> None"
    using search_q_url_None[of url pre t] t by auto
  then obtain g0 where g0: "search_q_url url = Some g0" by auto
  from search_q_url_Some[OF this] obtain pre0 t0 where p0:
    "url = pre0 @ t0" "match_q_url t0 = Some g0"
    "\<forall>pre' t'. url = pre' @ t' \<and> length pre' < length pre0 \<longrightarrow> match_q_url t' = None"
    by blast
  have "q_url_at url pre0 g0"
    unfolding q_url_at_drop using p0(1,2) by blast
  with assms(2) have "length pre \<le> length pre0" by blast
  moreover have "\<not> length pre < length pre0"
    using p0(3) t by auto
  ultimately have "length pre = length pre0" by simp
  with t(1) p0(1) have "pre = pre0" "t = t0" by auto
  with t(2) p0(2) have "g = g0" by simp
  with g0 show ?thesis by (simp add: clean_google_url_def)
qed


lemma no_q_url: "search_q_url url = None \<Longrightarrow> \<not> q_url_at url pre g"
  unfolding q_url_at_drop using search_q_url_None[of url pre] by auto

lemma rewrite_href_map:
  "map_of as ''href'' = Some href \<Longrightarrow>
     map_of (rewrite_href as) = (map_of as)(''href'' \<mapsto> clean_google_url href)"
  by (simp add: rewrite_href_def update_conv')


lemma rewrite_href_absent: "map_of as ''href'' = None \<Longrightarrow> rewrite_href as = as"
  by (simp add: rewrite_href_def)

lemma process_links_find_all:
  "map attrs (find_all ''a'' (process_links n))
     = map (\<lambda>e. rewrite_href (attrs e)) (find_all ''a'' n)"
  by (induction n) (auto simp: map_concat comp_def cong: map_cong)

lemma q_url_at_leftmost:
  assumes "CHR ''q'' \<notin> set pre" "q_url_at url pre g" "q_url_at url pre' g'"
  shows "length pre \<le> length pre'"
proof (rule ccontr)
  assume "\<not> length pre \<le> length pre'"
  then have less: "length pre' < length pre" by simp
  from assms(2) obtain t where t: "url = pre @ t"
    unfolding q_url_at_def by auto
  from assms(3) obtain t' where t': "url = pre' @ CHR ''q'' # t'"
    unfolding q_url_at_def by auto
  have "url ! length pre' = CHR ''q''"
    using t' by simp
  moreover have "url ! length pre' = pre ! length pre'"
    using t less by (simp add: nth_append)
  ultimately have "CHR ''q'' \<in> set pre"
    using less by (metis nth_mem)
  with assms(1) show False by simp
qed

text \<open>
  C3, as the specification states it: an \<open>href\<close> in which \<open>q=\<close>, a scheme, \<open>://\<close>
  and a rest up to the next \<open>&\<close> occur is replaced by that inner URL. The pattern of
  the code reads \<open>https?\<close> for the scheme, so an inner URL with another scheme, such as
  \<open>ftp\<close>, is not taken out: the \<open>href\<close> stays as it is.
\<close>

theorem clean_google_url_other_scheme_counterexample:
  "clean_google_url ''https://www.google.com/url?q=ftp://example.com/file&other=1''
     = ''https://www.google.com/url?q=ftp://example.com/file&other=1''
   \<and> clean_google_url ''https://www.google.com/url?q=ftp://example.com/file&other=1''
     \<noteq> ''ftp://example.com/file''"
  by (simp add: clean_google_url_def match_q_url_def)

text \<open>
  C3, amended. The link cleanup reaches every \<open>a\<close> element of the tree, at any
  depth: the \<open>a\<close> elements of the result are those of the document, in the same
  order, each with its \<open>href\<close> (when it has one) replaced by what
  \<open>clean_google_url\<close> returns for it, and with its attributes as they were when it
  has none. Where the pattern \<open>q=\<close>, \<open>http\<close> or \<open>https\<close>, \<open>://\<close>, non-empty rest up
  to the next \<open>&\<close> occurs in the URL, \<open>clean_google_url\<close> returns the inner URL of
  the leftmost occurrence, character for character (a \<open>%20\<close> stays a \<open>%20\<close>); where
  the pattern does not occur, it returns the URL itself.
\<close>

theorem clean_google_url_inner_url:
  "(q_url_at url pre g \<and> (\<forall>pre' g'. q_url_at url pre' g' \<longrightarrow> length pre \<le> length pre')
      \<longrightarrow> clean_google_url url = g)
   \<and> ((\<forall>pre g. \<not> q_url_at url pre g) \<longrightarrow> clean_google_url url = url)
   \<and> (map_of as ''href'' = Some href \<longrightarrow>
        map_of (attrs (process_links (Element ''a'' as cs)))
          = (map_of as)(''href'' \<mapsto> clean_google_url href))
   \<and> clean_google_url ''https://www.google.com/url?q=https://example.com/page&other=1''
        = ''https://example.com/page''
   \<and> clean_google_url ''https://www.google.com/url?q=http://example.com/a%20b%26c''
        = ''http://example.com/a%20b%26c''
   \<and> map attrs (find_all ''a'' (process_links n))
        = map (\<lambda>e. rewrite_href (attrs e)) (find_all ''a'' n)
   \<and> map attrs (concat (map (find_all ''a'') (map process_links soup)))
        = map (\<lambda>e. rewrite_href (attrs e)) (concat (map (find_all ''a'') soup))
   \<and> (map_of as ''href'' = Some href \<longrightarrow>
        map_of (rewrite_href as) = (map_of as)(''href'' \<mapsto> clean_google_url href))
   \<and> (map_of as ''href'' = None \<longrightarrow> rewrite_href as = as)"
proof -
  have "clean_google_url ''https://www.google.com/url?q=https://example.com/page&other=1''
        = ''https://example.com/page''"
    by (simp add: clean_google_url_def match_q_url_def match_url_rest_def)
  moreover have "clean_google_url ''https://www.google.com/url?q=http://example.com/a%20b%26c''
        = ''http://example.com/a%20b%26c''"
    by (simp add: clean_google_url_def match_q_url_def match_url_rest_def)
  moreover have "map attrs (concat (map (find_all ''a'') (map process_links soup)))
        = map (\<lambda>e. rewrite_href (attrs e)) (concat (map (find_all ''a'') soup))"
    by (simp add: map_concat comp_def process_links_find_all)
  ultimately show ?thesis
    using clean_google_url_first[of url pre g] clean_google_url_unchanged[of url]
      rewrite_href_map[of as href] rewrite_href_absent[of as] process_links_find_all[of n]
    by simp
qed

theorem clean_google_url_inner_url_witness:
  "q_url_at ''https://google.com/url?q=https://x.com&s=1'' ''https://google.com/url?'' ''https://x.com''
   \<and> (\<forall>pre' g'. \<not> (q_url_at ''https://google.com/url?q=https://x.com&s=1'' pre' g'
          \<and> length pre' < length ''https://google.com/url?''))
   \<and> clean_google_url ''https://google.com/url?q=https://x.com&s=1'' = ''https://x.com''
   \<and> (\<forall>pre g. \<not> q_url_at ''https://example.com/?p=1'' pre g)
   \<and> clean_google_url ''https://example.com/?p=1'' = ''https://example.com/?p=1''
   \<and> map_of (attrs (process_links (Element ''a'' [(''href'', ''q=http://a'')] [])))
        = (map_of [(''href'', ''q=http://a'')])(''href'' \<mapsto> clean_google_url ''q=http://a'')
   \<and> map attrs (find_all ''a'' (process_links
          (Element ''div'' []
             [Element ''p'' []
                [Text ''see '',
                 Element ''a'' [(''href'', ''https://google.com/url?q=https://x.com&s=1'')]
                   [Text ''x'']],
              Element ''a'' [(''name'', ''top'')] []])))
        = [[(''href'', ''https://x.com'')], [(''name'', ''top'')]]"
proof -
  let ?url = "''https://google.com/url?q=https://x.com&s=1''"
  let ?pre = "''https://google.com/url?''"
  let ?n = "Element ''div'' []
             [Element ''p'' []
                [Text ''see '',
                 Element ''a'' [(''href'', ''https://google.com/url?q=https://x.com&s=1'')]
                   [Text ''x'']],
              Element ''a'' [(''name'', ''top'')] []]"
  have "match_q_url ''q=https://x.com&s=1'' = Some ''https://x.com''"
    by (simp add: match_q_url_def match_url_rest_def)
  then have q: "q_url_at ?url ?pre ''https://x.com''"
    unfolding q_url_at_drop by simp
  have noq: "CHR ''q'' \<notin> set ?pre"
    by simp
  have first: "\<forall>pre' g'. q_url_at ?url pre' g' \<longrightarrow> length ?pre \<le> length pre'"
    using q_url_at_leftmost[OF noq q] by blast
  then have first': "\<forall>pre' g'. \<not> (q_url_at ?url pre' g' \<and> length pre' < length ?pre)"
    by (meson not_less)
  have none: "\<forall>pre g. \<not> q_url_at ''https://example.com/?p=1'' pre g"
    by (intro allI no_q_url) (simp add: match_q_url_def)
  have r1: "clean_google_url ?url = ''https://x.com''"
    by (rule clean_google_url_inner_url[where url = ?url and pre = ?pre and g = "''https://x.com''",
          THEN conjunct1, THEN mp, OF conjI[OF q first]])
  have r2: "clean_google_url ''https://example.com/?p=1'' = ''https://example.com/?p=1''"
    by (rule clean_google_url_inner_url[where url = "''https://example.com/?p=1''",
          THEN conjunct2, THEN conjunct1, THEN mp, OF none])
  have r3: "map_of (attrs (process_links (Element ''a'' [(''href'', ''q=http://a'')] [])))
        = (map_of [(''href'', ''q=http://a'')])(''href'' \<mapsto> clean_google_url ''q=http://a'')"
    using clean_google_url_inner_url[where as = "[(''href'', ''q=http://a'')]"
        and href = "''q=http://a''" and cs = "[]"]
    by simp
  have "map attrs (find_all ''a'' (process_links ?n))
        = map (\<lambda>e. rewrite_href (attrs e)) (find_all ''a'' ?n)"
    using clean_google_url_inner_url[where n = ?n] by blast
  also have "\<dots> = [[(''href'', clean_google_url ?url)], [(''name'', ''top'')]]"
    by (simp add: rewrite_href_def)
  finally have r4: "map attrs (find_all ''a'' (process_links ?n))
        = [[(''href'', ''https://x.com'')], [(''name'', ''top'')]]"
    by (simp only: r1)
  show ?thesis
    using q first' r1 none r2 r3 r4 by (intro conjI)
qed


section \<open>Paragraph line breaks\<close>

lemma new_text_map: "new_text s = map break_to_space s"
  by (induction s) (auto simp: new_text_def replace_char_def break_to_space_def)

lemma new_text_idem: "new_text (new_text s) = new_text s"
  by (induction s) (auto simp: new_text_map break_to_space_def)

lemma replace_strings_idem:
  "replace_strings new_text (replace_strings new_text n) = replace_strings new_text n"
  by (induction n) (simp_all add: new_text_idem)

lemma paragraphs_below_replaced:
  "paragraphs_below (replace_strings new_text n) = replace_strings new_text n"
proof (induction n)
  case (Text s)
  show ?case by simp
next
  case (Element t as cs)
  then show ?case
    by (simp add: replace_strings_idem cong: map_cong)
qed

lemma collapse_in_paragraph: "collapse_in_paragraphs True n = replace_strings new_text n"
  by (induction n) (simp_all add: new_text_map)

lemma paragraphs_below_collapse: "paragraphs_below n = collapse_in_paragraphs False n"
proof (induction n)
  case (Text s)
  show ?case by simp
next
  case (Element t as cs)
  show ?case
  proof (cases "t = ''p''")
    case True
    then show ?thesis
      by (simp add: paragraphs_below_replaced collapse_in_paragraph)
  next
    case False
    then show ?thesis
      using Element.IH by simp
  qed
qed

text \<open>
  C2. The line-break step rewrites the text nodes below a \<open>p\<close> element, and only
  those: in each of them every line feed and every carriage return becomes one space,
  each on its own, so that \<open>Hello\nWorld\r\n!\<close> becomes \<open>Hello World  !\<close> with two
  spaces. A text node with no \<open>p\<close> element above it, such as the text of a heading,
  stays as it is.
\<close>

theorem remove_line_breaks_within_paragraphs_collapses:
  "remove_line_breaks_within_paragraphs soup = map (collapse_in_paragraphs False) soup
   \<and> remove_line_breaks_within_paragraphs
        [Element ''p'' [] [Text (''Hello'' @ [CHR 0x0A] @ ''World'' @ [CHR 0x0D, CHR 0x0A] @ ''!'')]]
      = [Element ''p'' [] [Text ''Hello World  !'']]
   \<and> remove_line_breaks_within_paragraphs
        [Element ''h1'' [] [Text (''Hello'' @ [CHR 0x0A] @ ''World'')],
         Element ''p'' [(''id'', ''x'')] [Element ''b'' [] [Text (''a'' @ [CHR 0x0D] @ ''b'')]]]
      = [Element ''h1'' [] [Text (''Hello'' @ [CHR 0x0A] @ ''World'')],
         Element ''p'' [(''id'', ''x'')] [Element ''b'' [] [Text ''a b'']]]"
  by (simp add: remove_line_breaks_within_paragraphs_def paragraphs_below_collapse
      break_to_space_def)

section \<open>Image paths\<close>

lemma rfind_absent: "x \<notin> set s \<Longrightarrow> rfind x s = -1"
  by (induction s) (auto simp: Let_def)

lemma rfind_last: "x \<notin> set b \<Longrightarrow> rfind x (dir @ x # b) = int (length dir)"
  by (induction dir) (auto simp: Let_def rfind_absent)

lemma basename_segment: "CHR ''/'' \<notin> set b \<Longrightarrow> basename (dir @ ''/'' @ b) = b"
  by (simp add: basename_def rfind_last Let_def nat_add_distrib)

lemma basename_plain: "CHR ''/'' \<notin> set b \<Longrightarrow> basename b = b"
  by (simp add: basename_def rfind_absent)

lemma path_join_images: "CHR ''/'' \<notin> set b \<Longrightarrow> path_join ''images'' b = ''images/'' @ b"
  by (cases b) (auto simp: path_join_def)

lemma rewrite_img_src_segment:
  assumes "map_of as ''src'' = Some src" "src \<noteq> []" "CHR ''/'' \<notin> set b"
    "src = b \<or> src = dir @ ''/'' @ b"
  shows "map_of (rewrite_img_src as) = (map_of as)(''src'' \<mapsto> ''images/'' @ b)"
proof -
  have "basename src = b"
    using assms(3,4) basename_segment[of b dir] basename_plain[of b] by auto
  then show ?thesis
    using assms(1,2,3) by (simp add: rewrite_img_src_def path_join_images update_conv')
qed

lemma rewrite_img_src_skip:
  "map_of as ''src'' = None \<or> map_of as ''src'' = Some [] \<Longrightarrow> rewrite_img_src as = as"
  by (auto simp: rewrite_img_src_def)

lemma process_images_find_all:
  "map attrs (find_all ''img'' (process_images n))
     = map (\<lambda>e. rewrite_img_src (attrs e)) (find_all ''img'' n)"
  by (induction n) (auto simp: map_concat comp_def cong: map_cong)

text \<open>
  C4, as the specification states it: every \<open>img\<close> element with a \<open>src\<close> attribute
  gets \<open>images/\<close> and the base name as its \<open>src\<close>. The code tests \<open>if src:\<close>, so an
  \<open>img\<close> whose \<open>src\<close> is the empty string keeps it, where the statement asks for
  \<open>images/\<close>.
\<close>

theorem process_images_empty_src_counterexample:
  "map_of [(''src'', [])] ''src'' = Some []
   \<and> map_of (attrs (process_images (Element ''img'' [(''src'', [])] []))) ''src'' = Some []
   \<and> Some [] \<noteq> Some (path_join ''images'' (basename []))"
  by (simp add: rewrite_img_src_def path_join_def basename_def)

text \<open>
  C4, amended. The image rewrite reaches every \<open>img\<close> element of the tree, at any
  depth: the \<open>img\<close> elements of the result are those of the document, in the same
  order, each with its attributes rewritten. An \<open>img\<close> element whose \<open>src\<close> is
  present and not empty gets \<open>images/\<close> followed by the last segment of the old
  \<open>src\<close>: the part \<open>b\<close> behind the last \<open>/\<close>, or all of it when it holds no \<open>/\<close>;
  nothing but the string is looked at, and the other attributes stay. An \<open>img\<close>
  element without \<open>src\<close>, or with an empty one, keeps its attributes.
\<close>

theorem process_images_rewrites_src:
  "(map_of as ''src'' = Some src \<and> src \<noteq> [] \<and> CHR ''/'' \<notin> set b
      \<and> (src = b \<or> src = dir @ ''/'' @ b)
     \<longrightarrow> map_of (attrs (process_images (Element ''img'' as cs)))
           = (map_of as)(''src'' \<mapsto> ''images/'' @ b))
   \<and> (map_of as ''src'' = None \<or> map_of as ''src'' = Some []
     \<longrightarrow> attrs (process_images (Element ''img'' as cs)) = as)
   \<and> process_images (Element ''img'' [(''alt'', ''x''), (''src'', ''/a/b/photo.png'')] [])
        = Element ''img'' [(''alt'', ''x''), (''src'', ''images/photo.png'')] []
   \<and> map attrs (find_all ''img'' (process_images n))
        = map (\<lambda>e. rewrite_img_src (attrs e)) (find_all ''img'' n)
   \<and> map attrs (concat (map (find_all ''img'') (map process_images soup)))
        = map (\<lambda>e. rewrite_img_src (attrs e)) (concat (map (find_all ''img'') soup))
   \<and> (map_of as ''src'' = Some src \<and> src \<noteq> [] \<and> CHR ''/'' \<notin> set b
      \<and> (src = b \<or> src = dir @ ''/'' @ b)
     \<longrightarrow> map_of (rewrite_img_src as) = (map_of as)(''src'' \<mapsto> ''images/'' @ b))
   \<and> (map_of as ''src'' = None \<or> map_of as ''src'' = Some [] \<longrightarrow> rewrite_img_src as = as)"
proof -
  have "process_images (Element ''img'' [(''alt'', ''x''), (''src'', ''/a/b/photo.png'')] [])
        = Element ''img'' [(''alt'', ''x''), (''src'', ''images/photo.png'')] []"
    by (simp add: rewrite_img_src_def basename_def path_join_def Let_def)
  moreover have "map attrs (concat (map (find_all ''img'') (map process_images soup)))
        = map (\<lambda>e. rewrite_img_src (attrs e)) (concat (map (find_all ''img'') soup))"
    by (simp add: map_concat comp_def process_images_find_all)
  ultimately show ?thesis
    using rewrite_img_src_segment[of as src b dir] rewrite_img_src_skip[of as]
      process_images_find_all[of n]
    by simp
qed

theorem process_images_rewrites_src_witness:
  "map_of (attrs (process_images (Element ''img'' [(''src'', ''a/b/c.jpg'')] [])))
     = (map_of [(''src'', ''a/b/c.jpg'')])(''src'' \<mapsto> ''images/c.jpg'')
   \<and> map_of (attrs (process_images (Element ''img'' [(''src'', ''c.jpg'')] [])))
     = (map_of [(''src'', ''c.jpg'')])(''src'' \<mapsto> ''images/c.jpg'')
   \<and> attrs (process_images (Element ''img'' [(''alt'', ''x'')] [])) = [(''alt'', ''x'')]
   \<and> map attrs (find_all ''img'' (process_images
          (Element ''div'' []
             [Element ''p'' [] [Text ''A'', Element ''img'' [(''src'', ''/a/b/c.jpg'')] []],
              Element ''img'' [(''alt'', ''x'')] [],
              Element ''img'' [(''src'', [])] []])))
        = [[(''src'', ''images/c.jpg'')], [(''alt'', ''x'')], [(''src'', [])]]"
proof -
  let ?n = "Element ''div'' []
             [Element ''p'' [] [Text ''A'', Element ''img'' [(''src'', ''/a/b/c.jpg'')] []],
              Element ''img'' [(''alt'', ''x'')] [],
              Element ''img'' [(''src'', [])] []]"
  have "map_of (attrs (process_images (Element ''img'' [(''src'', ''a/b/c.jpg'')] [])))
     = (map_of [(''src'', ''a/b/c.jpg'')])(''src'' \<mapsto> ''images/'' @ ''c.jpg'')"
    using process_images_rewrites_src[where as = "[(''src'', ''a/b/c.jpg'')]"
        and src = "''a/b/c.jpg''" and b = "''c.jpg''" and dir = "''a/b''" and cs = "[]"]
    by simp
  moreover have "map_of (attrs (process_images (Element ''img'' [(''src'', ''c.jpg'')] [])))
     = (map_of [(''src'', ''c.jpg'')])(''src'' \<mapsto> ''images/'' @ ''c.jpg'')"
    using process_images_rewrites_src[where as = "[(''src'', ''c.jpg'')]"
        and src = "''c.jpg''" and b = "''c.jpg''" and cs = "[]"]
    by simp
  moreover have "attrs (process_images (Element ''img'' [(''alt'', ''x'')] [])) = [(''alt'', ''x'')]"
    using process_images_rewrites_src[where as = "[(''alt'', ''x'')]" and cs = "[]"]
    by simp
  moreover have "map attrs (find_all ''img'' (process_images ?n))
        = [[(''src'', ''images/c.jpg'')], [(''alt'', ''x'')], [(''src'', [])]]"
  proof -
    have "map attrs (find_all ''img'' (process_images ?n))
        = map (\<lambda>e. rewrite_img_src (attrs e)) (find_all ''img'' ?n)"
      using process_images_rewrites_src[where n = ?n] by blast
    also have "\<dots> = [[(''src'', ''images/c.jpg'')], [(''alt'', ''x'')], [(''src'', [])]]"
      by (simp add: rewrite_img_src_def basename_def path_join_def Let_def)
    finally show ?thesis .
  qed
  ultimately show ?thesis by simp
qed

text \<open>
  C10. An \<open>img\<close> element whose \<open>src\<close> attribute is present and is the empty string is
  left as it is: the rewrite asks for a \<open>src\<close> that is not empty.
\<close>

theorem process_images_empty_src_unchanged:
  "map_of as ''src'' = Some [] \<Longrightarrow>
     process_images (Element ''img'' as cs) = Element ''img'' as (map process_images cs)"
  by (simp add: rewrite_img_src_def)

theorem process_images_empty_src_unchanged_witness:
  "process_images (Element ''img'' [(''alt'', ''logo''), (''src'', [])] [])
     = Element ''img'' [(''alt'', ''logo''), (''src'', [])] []"
  using process_images_empty_src_unchanged[of "[(''alt'', ''logo''), (''src'', [])]" "[]"]
  by simp

section \<open>Steps that find nothing to do\<close>
















section \<open>The checks of the PDF tool\<close>

lemma empty_value_falsy: "empty_value v \<Longrightarrow> \<not> truthy v"
  by (auto simp: empty_value_def)

lemma check_fields_exit:
  "f \<in> set fs \<Longrightarrow> metadata f = None \<or> (\<exists>v. metadata f = Some v \<and> \<not> truthy v) \<Longrightarrow>
     \<exists>g. check_fields metadata fs = Inl (SystemExit 1 (field_message g))"
  by (induction fs) (auto split: option.splits)

lemma check_fields_status:
  "check_fields metadata fs = Inl e \<Longrightarrow> \<exists>g. e = SystemExit 1 (field_message g)"
  by (induction fs) (auto split: option.splits if_splits)

lemma main_field_exit:
  "field_check metadata = Inl e \<Longrightarrow> main (Inr (metadata, content)) md2html html2pdf = Inl e"
  by (simp add: main_def)

lemma content_check_exit:
  "content = [] \<or> \<not> list_ex (\<lambda>line. startswith (strip line) ''#'') (split_nl content) \<Longrightarrow>
     \<exists>msg. content_check content = Inl (SystemExit 1 msg)"
  by (auto simp: content_check_def)

lemma main_content_exit:
  assumes "content_check content = Inl (SystemExit 1 m)"
  shows "\<exists>msg. main (Inr (metadata, content)) md2html html2pdf = Inl (SystemExit 1 msg)"
proof (cases "field_check metadata")
  case (Inl e)
  then obtain g where "e = SystemExit 1 (field_message g)"
    using check_fields_status[of metadata required_fields e] by (auto simp: field_check_def)
  with Inl show ?thesis by (simp add: main_def)
next
  case (Inr u)
  with assms show ?thesis by (simp add: main_def)
qed

text \<open>
  C7. When one of the fields \<open>title\<close>, \<open>version\<close>, \<open>date_modified\<close>, \<open>pdf_filename\<close>
  is missing from the metadata or has an empty value, \<open>field_check\<close> exits with
  status 1, and so does the run, whatever the rendering steps would do: they are not
  reached. When the content is empty or has no line whose stripped form starts with
  \<open>#\<close>, \<open>content_check\<close> exits with status 1, and the run exits with status 1
  without rendering.
\<close>

theorem checks_exit_before_rendering:
  "(f \<in> {''title'', ''version'', ''date_modified'', ''pdf_filename''}
      \<and> (metadata f = None \<or> (\<exists>v. metadata f = Some v \<and> empty_value v))
     \<longrightarrow> (\<exists>msg. field_check metadata = Inl (SystemExit 1 msg)
            \<and> main (Inr (metadata, content)) md2html html2pdf = Inl (SystemExit 1 msg)))
   \<and> (content = [] \<or> \<not> list_ex (\<lambda>line. startswith (strip line) ''#'') (split_nl content)
     \<longrightarrow> (\<exists>msg. content_check content = Inl (SystemExit 1 msg))
         \<and> (\<exists>msg. main (Inr (metadata, content)) md2html html2pdf = Inl (SystemExit 1 msg)))"
proof (intro conjI impI)
  assume a: "f \<in> {''title'', ''version'', ''date_modified'', ''pdf_filename''}
      \<and> (metadata f = None \<or> (\<exists>v. metadata f = Some v \<and> empty_value v))"
  then have "f \<in> set required_fields"
    by (simp add: required_fields_def)
  moreover from a have "metadata f = None \<or> (\<exists>v. metadata f = Some v \<and> \<not> truthy v)"
    using empty_value_falsy by blast
  ultimately obtain g where "field_check metadata = Inl (SystemExit 1 (field_message g))"
    using check_fields_exit[of f required_fields metadata] by (auto simp: field_check_def)
  then show "\<exists>msg. field_check metadata = Inl (SystemExit 1 msg)
            \<and> main (Inr (metadata, content)) md2html html2pdf = Inl (SystemExit 1 msg)"
    using main_field_exit by blast
next
  assume "content = [] \<or> \<not> list_ex (\<lambda>line. startswith (strip line) ''#'') (split_nl content)"
  then show "\<exists>msg. content_check content = Inl (SystemExit 1 msg)"
    by (rule content_check_exit)
next
  assume "content = [] \<or> \<not> list_ex (\<lambda>line. startswith (strip line) ''#'') (split_nl content)"
  then obtain m where "content_check content = Inl (SystemExit 1 m)"
    using content_check_exit by blast
  then show "\<exists>msg. main (Inr (metadata, content)) md2html html2pdf = Inl (SystemExit 1 msg)"
    by (rule main_content_exit)
qed

theorem checks_exit_before_rendering_witness:
  "main (Inr ([''title'' \<mapsto> YStr ''Test Title'', ''version'' \<mapsto> YFloat 1,
               ''date_modified'' \<mapsto> YDate 2024 12 4, ''pdf_filename'' \<mapsto> YStr []],
              ''# Test Content''))
        (\<lambda>metadata content. Inr content) (\<lambda>metadata html. Inr ())
     = Inl (SystemExit 1 (field_message ''pdf_filename''))
   \<and> (\<exists>msg. main (Inr ([''version'' \<mapsto> YFloat 1], ''# Test Content''))
        (\<lambda>metadata content. Inr content) (\<lambda>metadata html. Inr ())
     = Inl (SystemExit 1 msg))
   \<and> (\<exists>msg. main (Inr ([''title'' \<mapsto> YStr ''Test Title'', ''version'' \<mapsto> YFloat 1,
               ''date_modified'' \<mapsto> YDate 2024 12 4, ''pdf_filename'' \<mapsto> YStr ''test.pdf''],
              ''Hello, World!''))
        (\<lambda>metadata content. Inr content) (\<lambda>metadata html. Inr ())
     = Inl (SystemExit 1 msg))"
proof -
  let ?m1 = "[''title'' \<mapsto> YStr ''Test Title'', ''version'' \<mapsto> YFloat 1,
               ''date_modified'' \<mapsto> YDate 2024 12 4, ''pdf_filename'' \<mapsto> YStr []]"
  let ?m2 = "[''version'' \<mapsto> YFloat 1] :: string \<rightharpoonup> yaml"
  let ?m3 = "[''title'' \<mapsto> YStr ''Test Title'', ''version'' \<mapsto> YFloat 1,
               ''date_modified'' \<mapsto> YDate 2024 12 4, ''pdf_filename'' \<mapsto> YStr ''test.pdf'']"
  let ?md = "\<lambda>(metadata :: string \<rightharpoonup> yaml) (content :: string). (Inr content :: failure + string)"
  let ?pdf = "\<lambda>(metadata :: string \<rightharpoonup> yaml) (html :: string). (Inr () :: failure + unit)"
  have h1: "''pdf_filename'' \<in> {''title'', ''version'', ''date_modified'', ''pdf_filename''}
      \<and> (?m1 ''pdf_filename'' = None \<or> (\<exists>v. ?m1 ''pdf_filename'' = Some v \<and> empty_value v))"
    by (simp add: empty_value_def)
  have h2: "''title'' \<in> {''title'', ''version'', ''date_modified'', ''pdf_filename''}
      \<and> (?m2 ''title'' = None \<or> (\<exists>v. ?m2 ''title'' = Some v \<and> empty_value v))"
    by simp
  have h3: "''Hello, World!'' = [] \<or>
      \<not> list_ex (\<lambda>line. startswith (strip line) ''#'') (split_nl ''Hello, World!'')"
    by (simp add: startswith_def strip_def is_space_def)
  have fc: "field_check ?m1 = Inl (SystemExit 1 (field_message ''pdf_filename''))"
    by (simp add: field_check_def required_fields_def)
  have e1: "\<exists>msg. field_check ?m1 = Inl (SystemExit 1 msg)
      \<and> main (Inr (?m1, ''# Test Content'')) ?md ?pdf = Inl (SystemExit 1 msg)"
    by (rule checks_exit_before_rendering[where f = "''pdf_filename''" and metadata = ?m1,
          THEN conjunct1, THEN mp, OF h1])
  then obtain msg where
    a: "field_check ?m1 = Inl (SystemExit 1 msg)" and
    b: "main (Inr (?m1, ''# Test Content'')) ?md ?pdf = Inl (SystemExit 1 msg)"
    by (elim exE conjE)
  from a have "msg = field_message ''pdf_filename''"
    unfolding fc by (simp only: sum.inject failure.inject)
  with b have r1: "main (Inr (?m1, ''# Test Content'')) ?md ?pdf
      = Inl (SystemExit 1 (field_message ''pdf_filename''))"
    by (simp only:)
  have "\<exists>msg. field_check ?m2 = Inl (SystemExit 1 msg)
      \<and> main (Inr (?m2, ''# Test Content'')) ?md ?pdf = Inl (SystemExit 1 msg)"
    by (rule checks_exit_before_rendering[where f = "''title''" and metadata = ?m2,
          THEN conjunct1, THEN mp, OF h2])
  then have r2: "\<exists>msg. main (Inr (?m2, ''# Test Content'')) ?md ?pdf = Inl (SystemExit 1 msg)"
    by (elim exE conjE) (rule exI)
  have r3: "\<exists>msg. main (Inr (?m3, ''Hello, World!'')) ?md ?pdf = Inl (SystemExit 1 msg)"
    by (rule checks_exit_before_rendering[where content = "''Hello, World!''" and metadata = ?m3,
          THEN conjunct2, THEN mp, OF h3, THEN conjunct2])
  show ?thesis
    using r1 r2 r3 by (intro conjI)
qed

end
